theory Spec2Isabelle
  imports Main "HOL-Library.Word"
begin

unbundle bit_operations_syntax

section \<open>The raw wire-format walker of decode\_trace.py\<close>

text \<open>
  The script \<^verbatim>\<open>subsys/tracing/perfetto/decode_trace.py\<close> re-parses the serialised bytes
  of every packet with three small routines: \<^verbatim>\<open>decode_varint\<close>, \<^verbatim>\<open>skip_field\<close> and the
  field-number loop at the end of \<^verbatim>\<open>print_packet\<close>.

  Data. A Python \<^verbatim>\<open>bytes\<close> object is a list of bytes (\<open>8 word\<close>); indexing it gives an
  integer between 0 and 255, read here with \<open>unat\<close>. Python integers are unbounded;
  every integer of these routines is non-negative (offsets start at 0 and only grow,
  values are built from \<open>|\<close> and \<open><<\<close> of non-negative operands), so they are \<open>nat\<close>.
  Offsets are therefore non-negative throughout: Python's negative indexing is outside
  the model, as it is outside every call the script makes.

  Errors. \<^verbatim>\<open>data[pos]\<close> raises \<^verbatim>\<open>IndexError\<close> out of range, \<^verbatim>\<open>skip_field\<close> raises
  \<^verbatim>\<open>ValueError\<close> on a wire type it does not know (\<open>ValueError w\<close>), and converting an
  integer to text raises \<^verbatim>\<open>ValueError\<close> when the integer has more decimal digits than
  the interpreter allows (\<open>ValueError_digits\<close>). All are values of \<open>error\<close>, and a
  routine that can raise returns \<open>error + 'a\<close> with \<open>Inl\<close> the exception.
\<close>

type_synonym byte = "8 word"

datatype error = IndexError | ValueError nat | ValueError_digits

subsection \<open>Indexing\<close>

definition getitem :: "byte list \<Rightarrow> nat \<Rightarrow> error + nat" where
  "getitem data pos =
     (if pos < length data then Inr (unat (data ! pos)) else Inl IndexError)"

subsection \<open>decode\_varint (lines 26 to 37)\<close>

text \<open>
  \<^verbatim>\<open>
  def decode_varint(data, pos):
      result = 0
      shift = 0
      while pos < len(data):
          byte = data[pos]
          result |= (byte & 0x7f) << shift
          pos += 1
          if not (byte & 0x80):
              break
          shift += 7
      return result, pos
  \<close>
  The loop carries \<open>pos\<close>, \<open>result\<close> and \<open>shift\<close>.
\<close>

function decode_varint_loop ::
  "byte list \<Rightarrow> nat \<Rightarrow> nat \<Rightarrow> nat \<Rightarrow> error + (nat \<times> nat)" where
  "decode_varint_loop data pos result shift =
     (if pos < length data then
        (case getitem data pos of
           Inl e \<Rightarrow> Inl e
         | Inr byte \<Rightarrow>
             (let result' = result OR push_bit shift (byte AND 0x7f);
                  pos' = pos + 1
              in if \<not> (byte AND 0x80 \<noteq> 0) then Inr (result', pos')
                 else decode_varint_loop data pos' result' (shift + 7)))
      else Inr (result, pos))"
  by pat_completeness auto
termination
  by (relation "measure (\<lambda>(data, pos, result, shift). length data - pos)") auto

declare decode_varint_loop.simps [simp del]

definition decode_varint :: "byte list \<Rightarrow> nat \<Rightarrow> error + (nat \<times> nat)" where
  "decode_varint data pos = decode_varint_loop data pos 0 0"

subsection \<open>skip\_field (lines 40 to 54)\<close>

text \<open>
  \<^verbatim>\<open>
  def skip_field(data, pos, wire_type):
      if wire_type == 0:  # Varint
          while pos < len(data) and data[pos] & 0x80:
              pos += 1
          return pos + 1
      elif wire_type == 1:  # 64-bit
          return pos + 8
      elif wire_type == 2:  # Length-delimited
          length, pos = decode_varint(data, pos)
          return pos + length
      elif wire_type == 5:  # 32-bit
          return pos + 4
      else:
          raise ValueError(f"Unknown wire type: {wire_type}")
  \<close>
  The \<^verbatim>\<open>and\<close> of the varint scan is short-circuit: the byte is read only when the
  offset is inside the buffer.
\<close>

function skip_varint_loop :: "byte list \<Rightarrow> nat \<Rightarrow> error + nat" where
  "skip_varint_loop data pos =
     (if pos < length data then
        (case getitem data pos of
           Inl e \<Rightarrow> Inl e
         | Inr byte \<Rightarrow>
             if byte AND 0x80 \<noteq> 0 then skip_varint_loop data (pos + 1)
             else Inr pos)
      else Inr pos)"
  by pat_completeness auto
termination
  by (relation "measure (\<lambda>(data, pos). length data - pos)") auto

declare skip_varint_loop.simps [simp del]

definition skip_field :: "byte list \<Rightarrow> nat \<Rightarrow> nat \<Rightarrow> error + nat" where
  "skip_field data pos wire_type =
     (if wire_type = 0 then
        (case skip_varint_loop data pos of
           Inl e \<Rightarrow> Inl e
         | Inr pos' \<Rightarrow> Inr (pos' + 1))
      else if wire_type = 1 then Inr (pos + 8)
      else if wire_type = 2 then
        (case decode_varint data pos of
           Inl e \<Rightarrow> Inl e
         | Inr (len, pos') \<Rightarrow> Inr (pos' + len))
      else if wire_type = 5 then Inr (pos + 4)
      else Inl (ValueError wire_type))"

subsection \<open>The field-number loop of print\_packet (lines 119 to 130)\<close>

text \<open>
  \<^verbatim>\<open>
  pos = 0
  field_numbers = []
  while pos < len(raw_data):
      tag, new_pos = decode_varint(raw_data, pos)
      field_num = tag >> 3
      wire_type = tag & 0x7
      field_numbers.append(field_num)
      try:
          pos = skip_field(raw_data, new_pos, wire_type)
      except:
          break
  \<close>
  \<^verbatim>\<open>decode_varint\<close> is called outside the \<^verbatim>\<open>try\<close>: an exception of it would leave
  the loop and the function, so it is passed on as \<open>Inl\<close>. An exception of
  \<^verbatim>\<open>skip_field\<close> is caught by the bare \<^verbatim>\<open>except\<close> and ends the loop with the list
  as it stands. The loop is a \<^theory_text>\<open>function\<close>: that the offset grows in every
  iteration is what its termination proof shows, from the two scans: neither returns an
  offset below the one it started at, and a varint read inside the buffer consumes a
  byte.
\<close>

function field_loop :: "byte list \<Rightarrow> nat \<Rightarrow> nat list \<Rightarrow> error + nat list" where
  "field_loop raw_data pos field_numbers =
     (if pos < length raw_data then
        (case decode_varint raw_data pos of
           Inl e \<Rightarrow> Inl e
         | Inr (tag, new_pos) \<Rightarrow>
             (let field_num = drop_bit 3 tag;
                  wire_type = tag AND 0x7;
                  field_numbers' = field_numbers @ [field_num]
              in case skip_field raw_data new_pos wire_type of
                   Inl e \<Rightarrow> Inr field_numbers'
                 | Inr pos' \<Rightarrow> field_loop raw_data pos' field_numbers'))
      else Inr field_numbers)"
  by pat_completeness auto
termination
proof (relation "measure (\<lambda>(raw_data, pos, field_numbers). length raw_data - pos)")
  show "wf (measure (\<lambda>(raw_data, pos, field_numbers). length raw_data - pos))"
    by simp
next
  fix raw_data :: "byte list" and pos :: nat and field_numbers :: "nat list"
    and x2 :: "nat \<times> nat" and tag new_pos field_num wire_type :: nat
    and field_numbers' :: "nat list" and pos' :: nat
  assume inside: "pos < length raw_data"
    and dec: "decode_varint raw_data pos = Inr x2"
    and x2: "(tag, new_pos) = x2"
    and skip: "skip_field raw_data new_pos wire_type = Inr pos'"
  have scan: "p \<le> q" if "decode_varint_loop d p r s = Inr (v, q)" for d p r s v q
    using that
  proof (induction d p r s rule: decode_varint_loop.induct)
    case (1 d p r s)
    show ?case
    proof (cases "p < length d")
      case False
      then show ?thesis
        using "1.prems" by (simp add: decode_varint_loop.simps [of d p])
    next
      case inside: True
      show ?thesis
      proof (cases "unat (d ! p) AND 0x80 \<noteq> 0")
        case False
        then show ?thesis
          using inside "1.prems"
          by (simp add: decode_varint_loop.simps [of d p] getitem_def)
      next
        case more: True
        have "decode_varint_loop d (p + 1) (r OR push_bit s (unat (d ! p) AND 0x7f)) (s + 7) =
            Inr (v, q)"
          using inside more "1.prems"
          by (simp add: decode_varint_loop.simps [of d p] getitem_def)
        then have "p + 1 \<le> q"
          using inside more by (intro "1.IH") (simp_all add: getitem_def)
        then show ?thesis by simp
      qed
    qed
  qed
  have vscan: "p \<le> q" if "skip_varint_loop d p = Inr q" for d p q
    using that
  proof (induction d p rule: skip_varint_loop.induct)
    case (1 d p)
    show ?case
    proof (cases "p < length d")
      case False
      then show ?thesis
        using "1.prems" by (simp add: skip_varint_loop.simps [of d p])
    next
      case inside: True
      show ?thesis
      proof (cases "unat (d ! p) AND 0x80 \<noteq> 0")
        case False
        then show ?thesis
          using inside "1.prems"
          by (simp add: skip_varint_loop.simps [of d p] getitem_def)
      next
        case more: True
        have "skip_varint_loop d (p + 1) = Inr q"
          using inside more "1.prems"
          by (simp add: skip_varint_loop.simps [of d p] getitem_def)
        then have "p + 1 \<le> q"
          using inside more by (intro "1.IH") (simp_all add: getitem_def)
        then show ?thesis by simp
      qed
    qed
  qed
  have "decode_varint_loop raw_data pos 0 0 = Inr (tag, new_pos)"
    using dec x2 by (simp add: decode_varint_def)
  then have "pos + 1 \<le> new_pos"
    using inside scan [of raw_data "pos + 1" _ 7 tag new_pos]
    by (auto simp add: decode_varint_loop.simps [of raw_data pos] getitem_def Let_def
        split: if_splits)
  moreover have "new_pos \<le> pos'"
    using skip vscan [of raw_data new_pos] scan [of raw_data new_pos 0 0]
    by (auto simp add: skip_field_def decode_varint_def split: if_splits sum.splits)
  ultimately show "((raw_data, pos', field_numbers'), (raw_data, pos, field_numbers))
      \<in> measure (\<lambda>(raw_data, pos, field_numbers). length raw_data - pos)"
    using inside by simp
qed

declare field_loop.simps [simp del]

definition raw_field_numbers :: "byte list \<Rightarrow> error + nat list" where
  "raw_field_numbers raw_data = field_loop raw_data 0 []"

subsection \<open>The unknown-field report of print\_packet (lines 114 and 132 to 134)\<close>

text \<open>
  \<^verbatim>\<open>
  known_field_nums = {8, 10, 13, 11, 60, 12}
  ...
  unknown_fields = [f for f in field_numbers if f not in known_field_nums]
  if unknown_fields:
      print(f"  [contains fields not in our proto: {sorted(set(unknown_fields))}]")
  \<close>
  \<open>unknown_report\<close> is the list the line prints, \<open>None\<close> when no line is printed.
\<close>

definition known_field_nums :: "nat set" where
  "known_field_nums = {8, 10, 13, 11, 60, 12}"

definition unknown_report :: "nat list \<Rightarrow> nat list option" where
  "unknown_report field_numbers =
     (let unknown_fields = filter (\<lambda>f. f \<notin> known_field_nums) field_numbers
      in if unknown_fields \<noteq> [] then Some (sorted_list_of_set (set unknown_fields))
         else None)"

subsection \<open>Integers as text\<close>

text \<open>
  \<open>str_nat n\<close> is the decimal digits of a non-negative integer. Python's conversion of
  an integer to text, which \<^verbatim>\<open>str\<close>, \<^verbatim>\<open>repr\<close> and an f-string all use, first checks
  the number of digits against the limit of the interpreter
  (\<^verbatim>\<open>sys.get_int_max_str_digits()\<close>: 4300 unless it is changed, 0 when the check is
  off) and raises \<^verbatim>\<open>ValueError\<close> on a longer integer: that is \<open>py_str\<close>, with the
  limit as a parameter (the interpreter accepts 0 and the limits from 640 on; the
  model takes any). The text of a list converts its elements from left to right, so
  the first integer that is too long raises.
\<close>

definition digit :: "nat \<Rightarrow> char" where
  "digit d = ''0123456789'' ! d"

function str_nat :: "nat \<Rightarrow> string" where
  "str_nat n = (if n < 10 then [digit n] else str_nat (n div 10) @ [digit (n mod 10)])"
  by pat_completeness auto
termination
  by (relation "measure (\<lambda>n. n)") auto

declare str_nat.simps [simp del]

definition default_max_str_digits :: nat where
  "default_max_str_digits = 4300"

definition py_str :: "nat \<Rightarrow> nat \<Rightarrow> error + string" where
  "py_str limit n =
     (if limit \<noteq> 0 \<and> limit < length (str_nat n) then Inl ValueError_digits
      else Inr (str_nat n))"

fun py_strs :: "nat \<Rightarrow> nat list \<Rightarrow> error + string list" where
  "py_strs limit [] = Inr []"
| "py_strs limit (n # ns) =
     (case py_str limit n of
        Inl e \<Rightarrow> Inl e
      | Inr s \<Rightarrow>
          (case py_strs limit ns of
             Inl e \<Rightarrow> Inl e
           | Inr ss \<Rightarrow> Inr (s # ss)))"

fun join :: "string \<Rightarrow> string list \<Rightarrow> string" where
  "join sep [] = []"
| "join sep [x] = x"
| "join sep (x # y # zs) = x @ sep @ join sep (y # zs)"

definition py_repr_list :: "nat \<Rightarrow> nat list \<Rightarrow> error + string" where
  "py_repr_list limit xs =
     (case py_strs limit xs of
        Inl e \<Rightarrow> Inl e
      | Inr ss \<Rightarrow> Inr (''['' @ join '', '' ss @ '']''))"

subsection \<open>print\_packet (lines 57 to 134) and the loop of main (lines 160 and 161)\<close>

text \<open>
  A packet is the schema-bound message. The model keeps what the statements below
  read: the bytes \<^verbatim>\<open>packet.SerializeToString()\<close> returns, and the optional
  \<^verbatim>\<open>sequence_flags\<close> (\<open>None\<close> when \<^verbatim>\<open>HasField('sequence_flags')\<close> is false). The
  statements of lines 65 to 69 (timestamp, sequence id) and of lines 79 to 117 (track
  descriptor, track event, interned data, the fields \<^verbatim>\<open>ListFields\<close> enumerates) print
  through the accessors of the message, a float division and \<^verbatim>\<open>repr\<close> of its values;
  the lines they print for the packet are taken as given, in \<open>lines_before_flags\<close> and
  \<open>lines_after_flags\<close>.

  \<^verbatim>\<open>
  if packet.HasField('sequence_flags'):
      flags = []
      if packet.sequence_flags & 1:
          flags.append("INCREMENTAL_STATE_CLEARED")
      if packet.sequence_flags & 2:
          flags.append("NEEDS_INCREMENTAL_STATE")
      print(f"  sequence_flags: {packet.sequence_flags} ({', '.join(flags)})")
  \<close>
  \<^verbatim>\<open>sequence_flags\<close> is a 32-bit field, the index of a packet and the length of its
  bytes are machine sizes: their text is far below every digit limit the interpreter
  accepts, and is \<open>str_nat\<close>.
\<close>

record packet =
  raw_data :: "byte list"
  sequence_flags :: "nat option"
  lines_before_flags :: "string list"
  lines_after_flags :: "string list"

definition sequence_flag_names :: "nat \<Rightarrow> string list" where
  "sequence_flag_names v =
     (let flags = [];
          flags = (if v AND 1 \<noteq> 0 then flags @ [''INCREMENTAL_STATE_CLEARED''] else flags);
          flags = (if v AND 2 \<noteq> 0 then flags @ [''NEEDS_INCREMENTAL_STATE''] else flags)
      in flags)"

definition print_sequence_flags :: "packet \<Rightarrow> string list" where
  "print_sequence_flags p =
     (case sequence_flags p of
        None \<Rightarrow> []
      | Some v \<Rightarrow>
          [''  sequence_flags: '' @ str_nat v @ '' ('' @
             join '', '' (sequence_flag_names v) @ '')''])"

text \<open>
  The report statement of lines 132 to 134. The field numbers come from arbitrary
  bytes and have no bound, so their text is \<open>py_str\<close>: the statement raises on a
  field number with more digits than the limit. It stands outside the \<^verbatim>\<open>try\<close> of the
  loop, so the exception leaves \<^verbatim>\<open>print_packet\<close>.
\<close>

definition print_report :: "nat \<Rightarrow> nat list \<Rightarrow> error + string list" where
  "print_report limit field_numbers =
     (case unknown_report field_numbers of
        None \<Rightarrow> Inr []
      | Some r \<Rightarrow>
          (case py_repr_list limit r of
             Inl e \<Rightarrow> Inl e
           | Inr s \<Rightarrow> Inr [''  [contains fields not in our proto: '' @ s @ '']'']))"

definition print_unknown_fields :: "nat \<Rightarrow> packet \<Rightarrow> error + string list" where
  "print_unknown_fields limit p =
     (case raw_field_numbers (raw_data p) of
        Inl e \<Rightarrow> Inl e
      | Inr field_numbers \<Rightarrow> print_report limit field_numbers)"

text \<open>
  \<^verbatim>\<open>print_packet\<close> prints as it goes: the result is the lines printed and the exception
  that ended it, if one did. The lines are, in the order of the source: the empty line
  and the header, the raw size, the lines of 65 to 69, the sequence flags, the lines
  of 79 to 117 and the unknown-field report.
\<close>

definition print_packet :: "nat \<Rightarrow> nat \<Rightarrow> packet \<Rightarrow> string list \<times> error option" where
  "print_packet limit i p =
     (let printed =
            [[], ''=== Packet '' @ str_nat i @ '' ==='',
             ''  [raw size: '' @ str_nat (length (raw_data p)) @ '' bytes]'']
            @ lines_before_flags p @ print_sequence_flags p @ lines_after_flags p
      in case print_unknown_fields limit p of
           Inl e \<Rightarrow> (printed, Some e)
         | Inr report \<Rightarrow> (printed @ report, None))"


section \<open>The wire format, as the specification words it\<close>

text \<open>
  The specification describes the bytes the walker reads: a varint is base 128, least
  significant group first, seven value bits per byte, the top bit set on every byte but
  the last; a field is a tag varint, \<open>(field_number << 3) | wire_type\<close>, followed by
  its payload; wire type 0 is a varint, 1 eight bytes, 2 a varint length and that many
  bytes, 5 four bytes. The definitions of this section follow those words, not the
  script: they are what the script's decoding is compared with.
\<close>

text \<open>The continuation bit is the top bit of a byte.\<close>

definition continues :: "byte \<Rightarrow> bool" where
  "continues b = bit b 7"

function encode_varint :: "nat \<Rightarrow> byte list" where
  "encode_varint n =
     (if n < 128 then [of_nat n]
      else of_nat (128 + n mod 128) # encode_varint (n div 128))"
  by pat_completeness auto
termination
  by (relation "measure (\<lambda>n. n)") auto

declare encode_varint.simps [simp del]

text \<open>
  The value of a run of seven-bit groups, least significant group first, and the byte
  strings that are one whole varint: every byte but the last has the continuation bit,
  the last has not. \<open>encode_varint n\<close> is the shortest of the varints with value \<open>n\<close>;
  the wire format also admits the longer ones, padded with zero groups.
\<close>

fun groups_value :: "byte list \<Rightarrow> nat" where
  "groups_value [] = 0"
| "groups_value (b # bs) = unat b mod 128 + 128 * groups_value bs"

fun is_varint :: "byte list \<Rightarrow> bool" where
  "is_varint [] = False"
| "is_varint [b] = (\<not> continues b)"
| "is_varint (b # c # cs) = (continues b \<and> is_varint (c # cs))"

text \<open>
  A field on the wire: its number, the bytes of its tag and its payload. The payload of
  a varint field is the bytes of the varint; a length-delimited payload is the bytes of
  the length varint and the content.
\<close>

datatype payload =
    Varint "byte list"
  | Fixed64 "byte list"
  | LengthDelimited "byte list" "byte list"
  | Fixed32 "byte list"

record field =
  field_number :: nat
  tag_bytes :: "byte list"
  field_payload :: payload

fun wire_type_of :: "payload \<Rightarrow> nat" where
  "wire_type_of (Varint bs) = 0"
| "wire_type_of (Fixed64 bs) = 1"
| "wire_type_of (LengthDelimited len bs) = 2"
| "wire_type_of (Fixed32 bs) = 5"

fun payload_bytes :: "payload \<Rightarrow> byte list" where
  "payload_bytes (Varint bs) = bs"
| "payload_bytes (Fixed64 bs) = bs"
| "payload_bytes (LengthDelimited len bs) = len @ bs"
| "payload_bytes (Fixed32 bs) = bs"

fun well_formed_payload :: "payload \<Rightarrow> bool" where
  "well_formed_payload (Varint bs) = is_varint bs"
| "well_formed_payload (Fixed64 bs) = (length bs = 8)"
| "well_formed_payload (LengthDelimited len bs) =
     (is_varint len \<and> groups_value len = length bs)"
| "well_formed_payload (Fixed32 bs) = (length bs = 4)"

definition make_tag :: "nat \<Rightarrow> nat \<Rightarrow> nat" where
  "make_tag number wire_type = push_bit 3 number OR wire_type"

definition well_formed :: "field \<Rightarrow> bool" where
  "well_formed f =
     (is_varint (tag_bytes f)
      \<and> groups_value (tag_bytes f) = make_tag (field_number f) (wire_type_of (field_payload f))
      \<and> well_formed_payload (field_payload f))"

definition field_bytes :: "field \<Rightarrow> byte list" where
  "field_bytes f = tag_bytes f @ payload_bytes (field_payload f)"

definition message_bytes :: "field list \<Rightarrow> byte list" where
  "message_bytes fs = concat (map field_bytes fs)"

text \<open>The fields a serialiser writes, every varint in its shortest form.\<close>

definition varint_field :: "nat \<Rightarrow> nat \<Rightarrow> field" where
  "varint_field number v =
     \<lparr>field_number = number, tag_bytes = encode_varint (make_tag number 0),
      field_payload = Varint (encode_varint v)\<rparr>"

definition bytes_field :: "nat \<Rightarrow> byte list \<Rightarrow> field" where
  "bytes_field number bs =
     \<lparr>field_number = number, tag_bytes = encode_varint (make_tag number 2),
      field_payload = LengthDelimited (encode_varint (length bs)) bs\<rparr>"

subsection \<open>The report, when every conversion succeeds\<close>

text \<open>
  \<open>repr_list\<close> is the text of a list of integers, each by its decimal digits, and
  \<open>unknown_lines\<close> the line of the report (none when there is nothing to report).
  \<open>report_fits\<close> says that no field number to report has more digits than the limit
  allows, or that the limit is off.
\<close>

definition repr_list :: "nat list \<Rightarrow> string" where
  "repr_list xs = ''['' @ join '', '' (map str_nat xs) @ '']''"

definition unknown_lines :: "nat list \<Rightarrow> string list" where
  "unknown_lines field_numbers =
     (case unknown_report field_numbers of
        None \<Rightarrow> []
      | Some r \<Rightarrow> [''  [contains fields not in our proto: '' @ repr_list r @ '']''])"

definition fits :: "nat \<Rightarrow> nat list \<Rightarrow> bool" where
  "fits limit ns = (limit = 0 \<or> list_all (\<lambda>n. length (str_nat n) \<le> limit) ns)"

definition report_fits :: "nat \<Rightarrow> nat list \<Rightarrow> bool" where
  "report_fits limit field_numbers =
     (case unknown_report field_numbers of
        None \<Rightarrow> True
      | Some r \<Rightarrow> fits limit r)"


subsection \<open>A tag of 2101 bytes\<close>



subsection \<open>What the two scans compute\<close>

text \<open>
  Two list functions describe the scans on the bytes from the starting offset on:
  \<open>varint_value\<close> is the number a varint scan accumulates and \<open>varint_len\<close> the number
  of bytes it consumes. Both stop after the first byte without continuation bit, or at
  the end of the list. They are used to state what the loops above compute.
\<close>

fun varint_value :: "byte list \<Rightarrow> nat" where
  "varint_value [] = 0"
| "varint_value (b # bs) =
     unat b mod 128 + (if continues b then 128 * varint_value bs else 0)"

fun varint_len :: "byte list \<Rightarrow> nat" where
  "varint_len [] = 0"
| "varint_len (b # bs) = 1 + (if continues b then varint_len bs else 0)"

section \<open>The scans and the loops, lemma by lemma\<close>

subsection \<open>Bit operations of the scans, as arithmetic\<close>

lemma and_127: "(n::nat) AND 127 = n mod 128"
proof -
  have e: "(127::nat) = mask 7" by (simp add: mask_eq_exp_minus_1)
  have "n AND mask 7 = n mod 2 ^ 7"
    by (simp only: take_bit_eq_mask [symmetric] take_bit_eq_mod)
  then show ?thesis by (simp add: e [symmetric])
qed

lemma and_128: "((n::nat) AND 128 = 0) = even (n div 128)"
proof -
  have "(128::nat) = 2 ^ 7" by simp
  then have "(n AND 128 = 0) = (\<not> bit n 7)" by (simp only: and_exp_eq_0_iff_not_bit)
  then show ?thesis by (simp add: bit_iff_odd)
qed

lemma or_push_bit_7: "(n mod 128) OR push_bit 7 (n div 128) = (n::nat)"
proof -
  have m: "n mod 128 = take_bit 7 n" by (simp add: take_bit_eq_mod)
  have d: "n div 128 = drop_bit 7 n" by (simp add: drop_bit_eq_div)
  have "bit (take_bit 7 n OR push_bit 7 (drop_bit 7 n)) k = bit n k" for k
  proof (cases "k < 7")
    case True
    then show ?thesis by (simp add: bit_simps)
  next
    case False
    then have "7 + (k - 7) = k" by simp
    with False show ?thesis by (simp add: bit_simps)
  qed
  then show ?thesis unfolding m d by (rule bit_eqI)
qed

lemma continues_iff: "continues b = odd (unat b div 128)"
proof -
  have "bit b 7 = bit (unat b) 7" by (simp add: bit_unsigned_iff)
  then show ?thesis by (simp add: continues_def bit_iff_odd)
qed

lemma continues_and: "continues b = (unat b AND 128 \<noteq> 0)"
  by (simp add: continues_iff and_128)

lemma group_or: "(x mod 128) OR push_bit 7 v = x mod 128 + 128 * (v::nat)"
proof -
  let ?n = "x mod 128 + 128 * v"
  have "?n mod 128 = x mod 128" and "?n div 128 = v" by simp_all
  with or_push_bit_7 [of ?n] show ?thesis by simp
qed

subsection \<open>The scans in closed form\<close>

lemma decode_varint_loop_eq:
  "decode_varint_loop data pos result shift =
     Inr (result OR push_bit shift (varint_value (drop pos data)),
          pos + varint_len (drop pos data))"
proof (induction data pos result shift rule: decode_varint_loop.induct)
  case (1 data pos result shift)
  show ?case
  proof (cases "pos < length data")
    case False
    then show ?thesis by (simp add: decode_varint_loop.simps [of data pos])
  next
    case inside: True
    let ?b = "unat (data ! pos)"
    let ?r = "result OR push_bit shift (?b AND 0x7f)"
    have d: "drop pos data = data ! pos # drop (pos + 1) data"
      using inside by (simp add: Cons_nth_drop_Suc)
    show ?thesis
    proof (cases "?b AND 0x80 \<noteq> 0")
      case False
      then have "\<not> continues (data ! pos)" by (simp add: continues_and)
      with False inside d show ?thesis
        by (simp add: decode_varint_loop.simps [of data pos] getitem_def and_127)
    next
      case more: True
      then have o: "continues (data ! pos)" by (simp add: continues_and)
      have "decode_varint_loop data pos result shift =
            decode_varint_loop data (pos + 1) ?r (shift + 7)"
        using inside more by (simp add: decode_varint_loop.simps [of data pos] getitem_def)
      also have "\<dots> = Inr (?r OR push_bit (shift + 7) (varint_value (drop (pos + 1) data)),
          pos + 1 + varint_len (drop (pos + 1) data))"
        using inside more by (intro "1.IH") (simp_all add: getitem_def)
      also have "?r OR push_bit (shift + 7) (varint_value (drop (pos + 1) data)) =
          result OR push_bit shift (varint_value (drop pos data))"
        using o by (simp add: d and_127 group_or [symmetric] push_bit_or
            push_bit_push_bit or.assoc add.commute)
      also have "pos + 1 + varint_len (drop (pos + 1) data) = pos + varint_len (drop pos data)"
        using o by (simp add: d)
      finally show ?thesis .
    qed
  qed
qed

lemma decode_varint_eq:
  "decode_varint data pos =
     Inr (varint_value (drop pos data), pos + varint_len (drop pos data))"
  by (simp add: decode_varint_def decode_varint_loop_eq)

lemma skip_varint_loop_eq:
  "skip_varint_loop data pos = Inr (pos + length (takeWhile continues (drop pos data)))"
proof (induction data pos rule: skip_varint_loop.induct)
  case (1 data pos)
  show ?case
  proof (cases "pos < length data")
    case False
    then show ?thesis by (simp add: skip_varint_loop.simps [of data pos])
  next
    case inside: True
    have d: "drop pos data = data ! pos # drop (pos + 1) data"
      using inside by (simp add: Cons_nth_drop_Suc)
    show ?thesis
    proof (cases "unat (data ! pos) AND 0x80 \<noteq> 0")
      case False
      then have "\<not> continues (data ! pos)" by (simp add: continues_and)
      with False inside show ?thesis
        by (simp add: skip_varint_loop.simps [of data pos] getitem_def d)
    next
      case more: True
      then have c: "continues (data ! pos)" by (simp add: continues_and)
      have "skip_varint_loop data pos = skip_varint_loop data (pos + 1)"
        using inside more by (simp add: skip_varint_loop.simps [of data pos] getitem_def)
      also have "\<dots> = Inr (pos + 1 + length (takeWhile continues (drop (pos + 1) data)))"
        using inside more by (intro "1.IH") (simp_all add: getitem_def)
      finally show ?thesis using c by (simp add: d)
    qed
  qed
qed

lemma varint_len_pos: "bs \<noteq> [] \<Longrightarrow> 0 < varint_len bs"
  by (cases bs) simp_all

lemma varint_len_le: "varint_len bs \<le> length bs"
  by (induction bs) simp_all

lemma decode_varint_advances:
  assumes "pos < length data" and "decode_varint data pos = Inr (v, new_pos)"
  shows "pos < new_pos" and "new_pos \<le> length data"
proof -
  have ne: "drop pos data \<noteq> []" using assms(1) by simp
  have np: "new_pos = pos + varint_len (drop pos data)"
    using assms(2) by (simp add: decode_varint_eq)
  show "pos < new_pos" using varint_len_pos [OF ne] np by simp
  have "varint_len (drop pos data) \<le> length data - pos"
    using varint_len_le [of "drop pos data"] by simp
  then show "new_pos \<le> length data" using np assms(1) by simp
qed

lemma skip_field_ge: "skip_field data pos wire_type = Inr pos' \<Longrightarrow> pos \<le> pos'"
  by (auto simp add: skip_field_def skip_varint_loop_eq decode_varint_eq split: if_splits)

subsection \<open>Decoding what the specification encodes\<close>

lemma unat_byte: "k < 256 \<Longrightarrow> unat (of_nat k :: byte) = k"
  by (simp add: unsigned_of_nat take_bit_nat_eq_self)

lemma unat_low_byte: "n < 128 \<Longrightarrow> unat (of_nat n :: byte) = n"
  by (simp add: unat_byte)

lemma unat_high_byte: "unat (128 + of_nat (n mod 128) :: byte) = 128 + n mod 128"
proof -
  have "unat (of_nat (128 + n mod 128) :: byte) = 128 + n mod 128"
    by (rule unat_byte) simp
  then show ?thesis by simp
qed

lemma continues_low_byte: "n < 128 \<Longrightarrow> \<not> continues (of_nat n)"
  by (simp add: continues_iff unat_low_byte)

lemma continues_high_byte: "continues (128 + of_nat (n mod 128))"
proof -
  have d: "(128 + n mod 128) div 128 = 1" by simp
  have "odd ((128 + n mod 128) div 128)" by (simp only: d) simp
  then show ?thesis unfolding continues_iff unat_high_byte .
qed

lemma varint_value_is_varint: "is_varint bs \<Longrightarrow> varint_value (bs @ rest) = groups_value bs"
  by (induction bs rule: is_varint.induct) simp_all

lemma varint_len_is_varint: "is_varint bs \<Longrightarrow> varint_len (bs @ rest) = length bs"
  by (induction bs rule: is_varint.induct) simp_all

lemma takeWhile_is_varint:
  "is_varint bs \<Longrightarrow> Suc (length (takeWhile continues (bs @ rest))) = length bs"
  by (induction bs rule: is_varint.induct) simp_all

lemma is_varint_nonempty: "is_varint bs \<Longrightarrow> bs \<noteq> []"
  by (cases bs) simp_all

lemma is_varint_Cons: "bs \<noteq> [] \<Longrightarrow> is_varint (b # bs) = (continues b \<and> is_varint bs)"
  by (cases bs) simp_all

lemma encode_varint_nonempty: "encode_varint n \<noteq> []"
  by (simp add: encode_varint.simps [of n])

lemma is_varint_encode: "is_varint (encode_varint n)"
proof (induction n rule: encode_varint.induct)
  case (1 n)
  show ?case
  proof (cases "n < 128")
    case True
    then show ?thesis by (simp add: encode_varint.simps [of n] continues_low_byte)
  next
    case False
    with 1 have "is_varint (encode_varint (n div 128))" by simp
    with False show ?thesis
      by (simp add: encode_varint.simps [of n] is_varint_Cons encode_varint_nonempty
          continues_high_byte)
  qed
qed

lemma groups_value_encode: "groups_value (encode_varint n) = n"
proof (induction n rule: encode_varint.induct)
  case (1 n)
  show ?case
  proof (cases "n < 128")
    case True
    then show ?thesis by (simp add: encode_varint.simps [of n] unat_low_byte)
  next
    case False
    with 1 have "groups_value (encode_varint (n div 128)) = n div 128" by simp
    with False show ?thesis by (simp add: encode_varint.simps [of n] unat_high_byte)
  qed
qed

lemma decode_varint_is_varint:
  "is_varint bs \<Longrightarrow>
   decode_varint (pre @ bs @ rest) (length pre) = Inr (groups_value bs, length pre + length bs)"
  by (simp add: decode_varint_eq varint_value_is_varint varint_len_is_varint)

lemma decode_varint_encode:
  "decode_varint (pre @ encode_varint n @ rest) (length pre) =
     Inr (n, length pre + length (encode_varint n))"
  using decode_varint_is_varint [OF is_varint_encode, of pre n rest]
  by (simp add: groups_value_encode)

subsection \<open>A scan that runs into the end of the buffer\<close>

lemma varint_value_all_continue:
  "\<forall>b \<in> set bs. continues b \<Longrightarrow> varint_value bs = groups_value bs"
  by (induction bs) simp_all

lemma varint_len_all_continue:
  "\<forall>b \<in> set bs. continues b \<Longrightarrow> varint_len bs = length bs"
  by (induction bs) simp_all

lemma takeWhile_all_continue:
  "\<forall>b \<in> set bs. continues b \<Longrightarrow> takeWhile continues bs = bs"
  by (induction bs) simp_all

subsection \<open>The field-number loop on encoded fields\<close>

lemma and_7: "(n::nat) AND 7 = n mod 8"
proof -
  have e: "(7::nat) = mask 3" by (simp add: mask_eq_exp_minus_1)
  have "n AND mask 3 = n mod 2 ^ 3"
    by (simp only: take_bit_eq_mask [symmetric] take_bit_eq_mod)
  then show ?thesis by (simp add: e [symmetric])
qed

lemma push_bit_3_or: "push_bit 3 (n div 8) OR (n mod 8) = (n::nat)"
proof -
  have m: "n mod 8 = take_bit 3 n" by (simp add: take_bit_eq_mod)
  have d: "n div 8 = drop_bit 3 n" by (simp add: drop_bit_eq_div)
  have "bit (push_bit 3 (drop_bit 3 n) OR take_bit 3 n) k = bit n k" for k
  proof (cases "k < 3")
    case True
    then show ?thesis by (simp add: bit_simps)
  next
    case False
    then have "3 + (k - 3) = k" by simp
    with False show ?thesis by (simp add: bit_simps)
  qed
  then show ?thesis unfolding m d by (rule bit_eqI)
qed

lemma make_tag_eq:
  assumes "wire_type < 8"
  shows "make_tag number wire_type = 8 * number + wire_type"
proof -
  let ?n = "8 * number + wire_type"
  have "?n div 8 = number" and "?n mod 8 = wire_type" using assms by simp_all
  with push_bit_3_or [of ?n] show ?thesis by (simp add: make_tag_def)
qed

lemma tag_field_number: "wire_type < 8 \<Longrightarrow> drop_bit 3 (make_tag number wire_type) = number"
  by (simp add: make_tag_eq drop_bit_eq_div)

lemma tag_wire_type: "wire_type < 8 \<Longrightarrow> make_tag number wire_type AND 7 = wire_type"
  by (simp add: make_tag_eq and_7)

lemma wire_type_of_lt: "wire_type_of p < 8"
  by (cases p) simp_all

lemma skip_payload:
  assumes "well_formed_payload p"
  shows "skip_field (pre @ payload_bytes p @ rest) (length pre) (wire_type_of p) =
     Inr (length pre + length (payload_bytes p))"
proof (cases p)
  case (Varint bs)
  have "drop (length pre) (pre @ bs @ rest) = bs @ rest" by simp
  then show ?thesis
    using assms takeWhile_is_varint [of bs rest]
    by (simp add: Varint skip_field_def skip_varint_loop_eq)
next
  case (Fixed64 bs)
  with assms show ?thesis by (simp add: skip_field_def)
next
  case (LengthDelimited len bs)
  have "decode_varint (pre @ len @ bs @ rest) (length pre) =
      Inr (groups_value len, length pre + length len)"
    using assms by (intro decode_varint_is_varint) (simp add: LengthDelimited)
  then show ?thesis using assms by (simp add: LengthDelimited skip_field_def)
next
  case (Fixed32 bs)
  with assms show ?thesis by (simp add: skip_field_def)
qed

lemma field_loop_step:
  assumes "well_formed f"
  shows "field_loop (pre @ field_bytes f @ rest) (length pre) acc =
     field_loop (pre @ field_bytes f @ rest) (length pre + length (field_bytes f))
       (acc @ [field_number f])"
proof -
  let ?t = "make_tag (field_number f) (wire_type_of (field_payload f))"
  let ?data = "pre @ field_bytes f @ rest"
  have tag: "is_varint (tag_bytes f)" "groups_value (tag_bytes f) = ?t"
    and pay: "well_formed_payload (field_payload f)"
    using assms by (simp_all add: well_formed_def)
  have data: "?data = pre @ tag_bytes f @ (payload_bytes (field_payload f) @ rest)"
    by (simp add: field_bytes_def)
  have data': "?data = (pre @ tag_bytes f) @ payload_bytes (field_payload f) @ rest"
    by (simp add: field_bytes_def)
  have inside: "length pre < length ?data"
    using is_varint_nonempty [OF tag(1)] by (simp add: field_bytes_def)
  have dec: "decode_varint ?data (length pre) = Inr (?t, length pre + length (tag_bytes f))"
    unfolding data using decode_varint_is_varint [OF tag(1)] tag(2) by simp
  have skip: "skip_field ?data (length pre + length (tag_bytes f))
      (wire_type_of (field_payload f)) = Inr (length pre + length (field_bytes f))"
    using skip_payload [OF pay, of "pre @ tag_bytes f" rest]
    unfolding data' by (simp add: field_bytes_def)
  show ?thesis
    using inside dec skip
    by (subst field_loop.simps)
       (simp add: tag_field_number tag_wire_type wire_type_of_lt)
qed

lemma field_loop_fields:
  "\<forall>f \<in> set fs. well_formed f \<Longrightarrow>
   field_loop (pre @ message_bytes fs @ rest) (length pre) acc =
     field_loop (pre @ message_bytes fs @ rest) (length pre + length (message_bytes fs))
       (acc @ map field_number fs)"
proof (induction fs arbitrary: pre acc)
  case Nil
  then show ?case by (simp add: message_bytes_def)
next
  case (Cons f fs)
  let ?data = "pre @ message_bytes (f # fs) @ rest"
  have d1: "?data = pre @ field_bytes f @ (message_bytes fs @ rest)"
    by (simp add: message_bytes_def)
  have d2: "?data = (pre @ field_bytes f) @ message_bytes fs @ rest"
    by (simp add: message_bytes_def)
  have "field_loop ?data (length pre) acc =
      field_loop ?data (length pre + length (field_bytes f)) (acc @ [field_number f])"
    unfolding d1 using Cons.prems by (intro field_loop_step) simp
  also have "\<dots> = field_loop ?data (length (pre @ field_bytes f)) (acc @ [field_number f])"
    by simp
  also have "\<dots> = field_loop ?data
      (length (pre @ field_bytes f) + length (message_bytes fs))
      ((acc @ [field_number f]) @ map field_number fs)"
    unfolding d2 using Cons.prems by (intro Cons.IH) simp
  finally show ?case by (simp add: message_bytes_def add.assoc)
qed

lemma field_loop_past_end: "length data \<le> pos \<Longrightarrow> field_loop data pos acc = Inr acc"
  by (simp add: field_loop.simps [of data pos])

lemma field_loop_returns:
  "\<exists>more. field_loop data pos acc = Inr (acc @ more) \<and> length more \<le> length data - pos"
proof (induction data pos acc rule: field_loop.induct)
  case (1 data pos acc)
  show ?case
  proof (cases "pos < length data")
    case False
    then show ?thesis by (simp add: field_loop.simps [of data pos])
  next
    case inside: True
    obtain tag new_pos where dec: "decode_varint data pos = Inr (tag, new_pos)"
      by (simp add: decode_varint_eq)
    have adv: "pos < new_pos" using decode_varint_advances(1) [OF inside dec] .
    show ?thesis
    proof (cases "skip_field data new_pos (tag AND 7)")
      case (Inl e)
      with inside dec show ?thesis
        by (simp add: field_loop.simps [of data pos])
    next
      case (Inr pos')
      have ge: "new_pos \<le> pos'" using Inr by (rule skip_field_ge)
      from "1.IH" [OF inside dec refl refl refl refl Inr]
      obtain more where m: "field_loop data pos' (acc @ [drop_bit 3 tag]) =
          Inr ((acc @ [drop_bit 3 tag]) @ more)" and l: "length more \<le> length data - pos'"
        by blast
      have "field_loop data pos acc = Inr (acc @ (drop_bit 3 tag # more))"
        using inside dec Inr m by (simp add: field_loop.simps [of data pos])
      moreover have "length (drop_bit 3 tag # more) \<le> length data - pos"
        using l adv ge inside by simp
      ultimately show ?thesis by blast
    qed
  qed
qed

lemma raw_field_numbers_fields:
  assumes "\<forall>f \<in> set fs. well_formed f"
  shows "raw_field_numbers (message_bytes fs @ rest) =
     field_loop (message_bytes fs @ rest) (length (message_bytes fs)) (map field_number fs)"
  using field_loop_fields [OF assms, of "[]" rest "[]"]
  by (simp add: raw_field_numbers_def)

lemma well_formed_varint_field: "well_formed (varint_field number v)"
  by (simp add: well_formed_def varint_field_def is_varint_encode groups_value_encode)

lemma well_formed_bytes_field: "well_formed (bytes_field number bs)"
  by (simp add: well_formed_def bytes_field_def is_varint_encode groups_value_encode)

subsection \<open>The flag tests and the loop over the packets\<close>

lemma and_1: "((v::nat) AND 1 \<noteq> 0) = bit v 0"
  by (simp add: and_one_eq bit_0 mod_2_eq_odd)

lemma and_2: "((v::nat) AND 2 \<noteq> 0) = bit v 1"
  using and_exp_eq_0_iff_not_bit [of v 1] by simp


subsection \<open>Malformed bytes after well-formed fields\<close>

lemma raw_field_numbers_unknown_wire_type:
  assumes "\<forall>f \<in> set fs. well_formed f" and "is_varint tag"
    and "groups_value tag = make_tag number wire_type" and "wire_type < 8"
    and "wire_type \<notin> {0, 1, 2, 5}"
  shows "raw_field_numbers (message_bytes fs @ tag @ rest) =
     Inr (map field_number fs @ [number])"
proof -
  let ?pre = "message_bytes fs"
  let ?data = "?pre @ tag @ rest"
  have tn: "drop_bit 3 (groups_value tag) = number" and tw: "groups_value tag AND 7 = wire_type"
    using assms(3,4) by (simp_all add: tag_field_number tag_wire_type)
  have inside: "length ?pre < length ?data"
    using is_varint_nonempty [OF assms(2)] by simp
  have dec: "decode_varint ?data (length ?pre) =
      Inr (groups_value tag, length ?pre + length tag)"
    using assms(2) by (rule decode_varint_is_varint)
  have skip: "skip_field ?data (length ?pre + length tag) wire_type =
      Inl (ValueError wire_type)"
    using assms(5) by (simp add: skip_field_def)
  have "field_loop ?data (length ?pre) (map field_number fs) =
      Inr (map field_number fs @ [number])"
    using inside dec skip
    by (subst field_loop.simps) (simp add: tn tw)
  then show ?thesis
    using raw_field_numbers_fields [OF assms(1), of "tag @ rest"] by simp
qed

lemma raw_field_numbers_overlong:
  assumes "\<forall>f \<in> set fs. well_formed f" and "is_varint tag"
    and "groups_value tag = make_tag number 2"
    and "is_varint len" and "length content < groups_value len"
  shows "raw_field_numbers (message_bytes fs @ tag @ len @ content) =
     Inr (map field_number fs @ [number])"
proof -
  let ?pre = "message_bytes fs"
  let ?data = "?pre @ tag @ len @ content"
  have tn: "drop_bit 3 (groups_value tag) = number" and tw: "groups_value tag AND 7 = 2"
    using assms(3) by (simp_all add: tag_field_number tag_wire_type)
  have inside: "length ?pre < length ?data"
    using is_varint_nonempty [OF assms(2)] by simp
  have dec: "decode_varint ?data (length ?pre) =
      Inr (groups_value tag, length ?pre + length tag)"
    using assms(2) by (rule decode_varint_is_varint)
  have "decode_varint ((?pre @ tag) @ len @ content) (length (?pre @ tag)) =
      Inr (groups_value len, length (?pre @ tag) + length len)"
    using assms(4) by (rule decode_varint_is_varint)
  then have skip: "skip_field ?data (length ?pre + length tag) 2 =
      Inr (length ?pre + length tag + length len + groups_value len)"
    by (simp add: skip_field_def)
  have past: "length ?data \<le> length ?pre + length tag + length len + groups_value len"
    using assms(5) by simp
  have "field_loop ?data (length ?pre) (map field_number fs) =
      field_loop ?data (length ?pre + length tag + length len + groups_value len)
        (map field_number fs @ [number])"
    using inside dec skip
    by (subst field_loop.simps) (simp add: tn tw)
  also have "\<dots> = Inr (map field_number fs @ [number])"
    using past by (rule field_loop_past_end)
  finally show ?thesis
    using raw_field_numbers_fields [OF assms(1), of "tag @ len @ content"] by simp
qed

subsection \<open>The number of digits and the report\<close>




lemma py_strs_eq:
  "py_strs limit ns =
     (if fits limit ns then Inr (map str_nat ns) else Inl ValueError_digits)"
  by (induction ns) (auto simp add: fits_def py_str_def)

lemma py_repr_list_eq:
  "py_repr_list limit ns =
     (if fits limit ns then Inr (repr_list ns) else Inl ValueError_digits)"
  by (simp add: py_repr_list_def py_strs_eq repr_list_def)

lemma print_report_eq:
  "print_report limit field_numbers =
     (if report_fits limit field_numbers then Inr (unknown_lines field_numbers)
      else Inl ValueError_digits)"
  by (simp add: print_report_def report_fits_def unknown_lines_def py_repr_list_eq
      split: option.splits)

lemma print_unknown_fields_of:
  "raw_field_numbers (raw_data p) = Inr fns \<Longrightarrow>
   print_unknown_fields limit p = print_report limit fns"
  by (simp add: print_unknown_fields_def)





subsection \<open>The tag of 2101 bytes\<close>















section \<open>The claims\<close>

text \<open>
  Claim C1. On a well-formed buffer, the bytes of fields with wire types 0, 1, 2 and 5
  one after the other (every tag and every varint a whole varint, a 64-bit payload
  eight bytes, a 32-bit payload four, a length-delimited payload as long as its length
  varint says, so that every payload lies inside the buffer), the field-number loop of
  \<^verbatim>\<open>print_packet\<close> returns the field numbers of the fields in wire order, each
  occurrence once: none is dropped and none is invented. Decoding the payload of a
  varint field gives its value. For field 1, varint 300, followed by field 2 with the
  three bytes of "abc", the loop returns \<open>[1, 2]\<close> and the payload of field 1 decodes
  to 300.
\<close>

theorem enumerator_well_formed:
  assumes "\<forall>f \<in> set fs. well_formed f"
  shows "raw_field_numbers (message_bytes fs) = Inr (map field_number fs)
    \<and> (is_varint bs \<longrightarrow> decode_varint bs 0 = Inr (groups_value bs, length bs))"
proof -
  have "raw_field_numbers (message_bytes fs) = Inr (map field_number fs)"
    using raw_field_numbers_fields [OF assms, of "[]"] by (simp add: field_loop_past_end)
  moreover have "decode_varint bs 0 = Inr (groups_value bs, length bs)" if "is_varint bs"
    using decode_varint_is_varint [OF that, of "[]" "[]"] by simp
  ultimately show ?thesis by simp
qed

theorem enumerator_well_formed_witness:
  "message_bytes [varint_field 1 300, bytes_field 2 [0x61, 0x62, 0x63]] =
     [0x08, 0xAC, 0x02, 0x12, 0x03, 0x61, 0x62, 0x63]
   \<and> raw_field_numbers [0x08, 0xAC, 0x02, 0x12, 0x03, 0x61, 0x62, 0x63] = Inr [1, 2]
   \<and> field_payload (varint_field 1 300) = Varint [0xAC, 0x02]
   \<and> decode_varint [0xAC, 0x02] 0 = Inr (300, 2)"
proof -
  let ?fs = "[varint_field 1 300, bytes_field 2 [0x61, 0x62, 0x63]]"
  have e: "encode_varint 300 = [0xAC, 0x02]"
    by (simp add: encode_varint.simps)
  have f: "field_bytes (varint_field 1 300) = [0x08, 0xAC, 0x02]"
    "field_bytes (bytes_field 2 [0x61, 0x62, 0x63]) = [0x12, 0x03, 0x61, 0x62, 0x63]"
    by (simp_all add: field_bytes_def varint_field_def bytes_field_def make_tag_eq
        encode_varint.simps)
  have m: "message_bytes ?fs = [0x08, 0xAC, 0x02, 0x12, 0x03, 0x61, 0x62, 0x63]"
    by (simp add: message_bytes_def f del: One_nat_def)
  have n: "map field_number ?fs = [1, 2]"
    by (simp add: varint_field_def bytes_field_def del: One_nat_def)
  have p: "field_payload (varint_field 1 300) = Varint [0xAC, 0x02]"
    by (simp add: varint_field_def e)
  have v: "is_varint [0xAC, 0x02]" "groups_value [0xAC, 0x02] = 300"
    by (simp_all add: continues_def)
  have w: "\<forall>f \<in> set ?fs. well_formed f"
    by (simp add: well_formed_varint_field well_formed_bytes_field)
  note r = enumerator_well_formed [OF w, of "[0xAC, 0x02]", unfolded m n]
  have "raw_field_numbers [0x08, 0xAC, 0x02, 0x12, 0x03, 0x61, 0x62, 0x63] = Inr [1, 2]"
    using r by blast
  moreover have "decode_varint [0xAC, 0x02] 0 =
      Inr (groups_value [0xAC, 0x02], length [0xAC, 0x02 :: byte])"
    using r v(1) by blast
  then have "decode_varint [0xAC, 0x02] 0 = Inr (300, 2)"
    unfolding v(2) by simp
  ultimately show ?thesis using m p by blast
qed

text \<open>
  Claim C2. Round trip of a varint: for every unsigned integer \<open>n\<close>, decoding the
  base-128 little-endian encoding of \<open>n\<close> from offset 0 returns \<open>n\<close> and the offset
  just after the varint, the length of the encoding. Python's integers are unbounded,
  so there is no largest value to stop at; the boundary values 127, 128, 16383 and
  16384 are instances.
\<close>

theorem varint_round_trip:
  "decode_varint (encode_varint n) 0 = Inr (n, length (encode_varint n))"
  using decode_varint_encode [of "[]" n "[]"] by simp

theorem varint_round_trip_witness:
  "encode_varint 300 = [0xAC, 0x02] \<and> decode_varint [0xAC, 0x02] 0 = Inr (300, 2)
   \<and> decode_varint (encode_varint 127) 0 = Inr (127, 1)
   \<and> decode_varint (encode_varint 128) 0 = Inr (128, 2)
   \<and> decode_varint (encode_varint 16383) 0 = Inr (16383, 2)
   \<and> decode_varint (encode_varint 16384) 0 = Inr (16384, 3)"
proof -
  have e: "encode_varint 300 = [0xAC, 0x02]" "length (encode_varint 127) = 1"
    "length (encode_varint 128) = 2" "length (encode_varint 16383) = 2"
    "length (encode_varint 16384) = 3"
    by (simp_all add: encode_varint.simps)
  show ?thesis
    using varint_round_trip [of 300] varint_round_trip [of 127] varint_round_trip [of 128]
      varint_round_trip [of 16383] varint_round_trip [of 16384]
    by (simp add: e)
qed

text \<open>
  Claim C3. The policy of \<^verbatim>\<open>skip_field\<close>, for every byte sequence and offset. Wire
  type 0: the offset moves over the bytes with the continuation bit set, as far as they
  go, and one byte more. Wire type 1: eight bytes. Wire type 2: a varint is decoded at
  the offset (it never fails) and the result is the offset after it plus its value; when
  the bytes at the offset are the encoding of \<open>n\<close>, that is \<open>n\<close> bytes past the length
  varint. Wire type 5: four bytes. Every other wire type raises \<^verbatim>\<open>ValueError\<close>
  instead of returning an offset.
\<close>

theorem skip_field_policy:
  "skip_field data pos 0 = Inr (pos + length (takeWhile continues (drop pos data)) + 1)
   \<and> skip_field data pos 1 = Inr (pos + 8)
   \<and> (\<exists>len pos'. decode_varint data pos = Inr (len, pos')
         \<and> skip_field data pos 2 = Inr (pos' + len))
   \<and> (data = pre @ encode_varint n @ rest \<and> pos = length pre \<longrightarrow>
         skip_field data pos 2 = Inr (pos + length (encode_varint n) + n))
   \<and> skip_field data pos 5 = Inr (pos + 4)
   \<and> (wire_type \<notin> {0, 1, 2, 5} \<longrightarrow>
         skip_field data pos wire_type = Inl (ValueError wire_type))"
proof -
  have a: "skip_field data pos 0 =
      Inr (pos + length (takeWhile continues (drop pos data)) + 1)"
    by (simp add: skip_field_def skip_varint_loop_eq)
  have b: "skip_field data pos 1 = Inr (pos + 8)" "skip_field data pos 5 = Inr (pos + 4)"
    by (simp_all add: skip_field_def)
  have c: "\<exists>len pos'. decode_varint data pos = Inr (len, pos')
         \<and> skip_field data pos 2 = Inr (pos' + len)"
    by (simp add: skip_field_def decode_varint_eq)
  have d: "data = pre @ encode_varint n @ rest \<and> pos = length pre \<longrightarrow>
         skip_field data pos 2 = Inr (pos + length (encode_varint n) + n)"
    by (simp add: skip_field_def decode_varint_encode)
  have e: "wire_type \<notin> {0, 1, 2, 5} \<longrightarrow>
         skip_field data pos wire_type = Inl (ValueError wire_type)"
    by (simp add: skip_field_def)
  from a b c d e show ?thesis by blast
qed

theorem skip_field_policy_witness:
  "skip_field [0x08, 0xAC, 0x02, 0x12, 0x03, 0x61, 0x62, 0x63] 1 0 = Inr 3
   \<and> skip_field [0x08, 0xAC, 0x02, 0x12, 0x03, 0x61, 0x62, 0x63] 1 1 = Inr 9
   \<and> skip_field [0x08, 0xAC, 0x02, 0x12, 0x03, 0x61, 0x62, 0x63] 4 2 = Inr 8
   \<and> skip_field [0x08, 0xAC, 0x02, 0x12, 0x03, 0x61, 0x62, 0x63] 1 5 = Inr 5
   \<and> skip_field [0x08, 0xAC, 0x02, 0x12, 0x03, 0x61, 0x62, 0x63] 1 3 = Inl (ValueError 3)
   \<and> skip_field [0x08, 0xAC, 0x02, 0x12, 0x03, 0x61, 0x62, 0x63] 1 7 = Inl (ValueError 7)"
proof -
  let ?d = "[0x08, 0xAC, 0x02, 0x12, 0x03, 0x61, 0x62, 0x63] :: byte list"
  have e: "encode_varint 3 = [0x03]" by (simp add: encode_varint.simps)
  have "skip_field ?d 1 0 = Inr 3"
    using skip_field_policy [of ?d 1 "[]" 0 "[]" 3] by (simp add: continues_def)
  moreover have "skip_field ?d 1 1 = Inr 9 \<and> skip_field ?d 1 5 = Inr 5"
    using skip_field_policy [of ?d 1 "[]" 0 "[]" 3] by simp
  moreover have "skip_field ?d 4 2 = Inr 8"
    using skip_field_policy [of ?d 4 "[0x08, 0xAC, 0x02, 0x12]" 3 "[0x61, 0x62, 0x63]" 3]
    by (simp add: e)
  moreover have "skip_field ?d 1 3 = Inl (ValueError 3)"
    using skip_field_policy [of ?d 1 "[]" 0 "[]" 3] by simp
  moreover have "skip_field ?d 1 7 = Inl (ValueError 7)"
    using skip_field_policy [of ?d 1 "[]" 0 "[]" 7] by simp
  ultimately show ?thesis by simp
qed

text \<open>
  Claim C4. Malformed bytes do not raise past the loop. From every state, on every
  buffer, the loop returns a list that extends the field numbers collected so far.
  After well-formed fields, a tag with a wire type other than 0, 1, 2 and 5 ends the
  loop with the field numbers of those fields and of the tag; so does a
  length-delimited field whose declared length is larger than the bytes that are left.
  The unknown-field report is made from that list: the report statement runs on it.
\<close>

theorem enumerator_malformed:
  assumes "\<forall>f \<in> set fs. well_formed f" and "is_varint tag"
    and "groups_value tag = make_tag number wire_type" and "wire_type < 8"
  shows "(\<exists>more. field_loop data pos acc = Inr (acc @ more))
    \<and> (wire_type \<notin> {0, 1, 2, 5} \<and> raw_data p = message_bytes fs @ tag @ rest \<longrightarrow>
        raw_field_numbers (raw_data p) = Inr (map field_number fs @ [number])
        \<and> print_unknown_fields limit p = print_report limit (map field_number fs @ [number]))
    \<and> (wire_type = 2 \<and> is_varint len \<and> length content < groups_value len \<and>
          raw_data p = message_bytes fs @ tag @ len @ content \<longrightarrow>
        raw_field_numbers (raw_data p) = Inr (map field_number fs @ [number])
        \<and> print_unknown_fields limit p = print_report limit (map field_number fs @ [number]))"
proof -
  have a: "\<exists>more. field_loop data pos acc = Inr (acc @ more)"
    using field_loop_returns [of data pos acc] by blast
  have b: "raw_field_numbers (raw_data p) = Inr (map field_number fs @ [number])"
    if "wire_type \<notin> {0, 1, 2, 5}" and "raw_data p = message_bytes fs @ tag @ rest"
    using raw_field_numbers_unknown_wire_type [OF assms that(1), of rest] that(2) by simp
  have c: "raw_field_numbers (raw_data p) = Inr (map field_number fs @ [number])"
    if "wire_type = 2" and "is_varint len" and "length content < groups_value len"
      and "raw_data p = message_bytes fs @ tag @ len @ content"
    using raw_field_numbers_overlong [OF assms(1,2) _ that(2,3)] assms(3) that(1,4) by simp
  show ?thesis using a b c print_unknown_fields_of [of p _ limit] by blast
qed

theorem enumerator_malformed_witness:
  "raw_field_numbers [0x08, 0xAC, 0x02, 0x4B, 0x00] = Inr [1, 9]
   \<and> print_unknown_fields default_max_str_digits
        \<lparr>raw_data = [0x08, 0xAC, 0x02, 0x4B, 0x00], sequence_flags = None,
         lines_before_flags = [], lines_after_flags = []\<rparr>
       = Inr [''  [contains fields not in our proto: [1, 9]]'']
   \<and> raw_field_numbers [0x08, 0xAC, 0x02, 0x12, 0x05, 0x61, 0x62] = Inr [1, 2]
   \<and> print_unknown_fields default_max_str_digits
        \<lparr>raw_data = [0x08, 0xAC, 0x02, 0x12, 0x05, 0x61, 0x62], sequence_flags = None,
         lines_before_flags = [], lines_after_flags = []\<rparr>
       = Inr [''  [contains fields not in our proto: [1, 2]]'']"
proof -
  let ?fs = "[varint_field 1 300]"
  let ?p = "\<lparr>raw_data = [0x08, 0xAC, 0x02, 0x4B, 0x00], sequence_flags = None,
         lines_before_flags = [], lines_after_flags = []\<rparr>"
  let ?q = "\<lparr>raw_data = [0x08, 0xAC, 0x02, 0x12, 0x05, 0x61, 0x62], sequence_flags = None,
         lines_before_flags = [], lines_after_flags = []\<rparr>"
  have w: "\<forall>f \<in> set ?fs. well_formed f" by (simp add: well_formed_varint_field)
  have m: "message_bytes ?fs = [0x08, 0xAC, 0x02]"
    by (simp add: message_bytes_def field_bytes_def varint_field_def make_tag_eq
        encode_varint.simps)
  have n: "map field_number ?fs = [1]"
    by (simp add: varint_field_def del: One_nat_def)
  have t3: "is_varint [0x4B]" "groups_value [0x4B] = make_tag 9 3" "(3::nat) < 8"
    by (simp_all add: make_tag_eq continues_def)
  have t2: "is_varint [0x12]" "groups_value [0x12] = make_tag 2 2" "(2::nat) < 8"
    by (simp_all add: make_tag_eq continues_def)
  have l5: "is_varint [0x05]" "groups_value [0x05] = 5"
    by (simp_all add: continues_def)
  have l19: "print_report default_max_str_digits [1, 9] =
      Inr [''  [contains fields not in our proto: [1, 9]]'']"
    by (simp add: print_report_eq report_fits_def fits_def unknown_lines_def
        unknown_report_def known_field_nums_def default_max_str_digits_def
        sorted_list_of_set_sort_remdups repr_list_def str_nat.simps digit_def)
  have l12: "print_report default_max_str_digits [1, 2] =
      Inr [''  [contains fields not in our proto: [1, 2]]'']"
    by (simp add: print_report_eq report_fits_def fits_def unknown_lines_def
        unknown_report_def known_field_nums_def default_max_str_digits_def
        sorted_list_of_set_sort_remdups repr_list_def str_nat.simps digit_def)
  note r = enumerator_malformed [OF w t3,
      of "[]" 0 "[]" ?p "[0x00]" default_max_str_digits "[]" "[]", unfolded m n]
  note s = enumerator_malformed [OF w t2,
      of "[]" 0 "[]" ?q "[]" default_max_str_digits "[0x05]" "[0x61, 0x62]",
      unfolded m n l5(2)]
  have a: "raw_field_numbers (raw_data ?p) = Inr [1, 9]
      \<and> print_unknown_fields default_max_str_digits ?p =
          print_report default_max_str_digits [1, 9]"
    using r by (simp del: One_nat_def)
  have b: "raw_field_numbers (raw_data ?q) = Inr [1, 2]
      \<and> print_unknown_fields default_max_str_digits ?q =
          print_report default_max_str_digits [1, 2]"
    using s l5(1) by (simp del: One_nat_def)
  show ?thesis using a b by (simp add: l19 l12 del: One_nat_def)
qed




text \<open>
  Claim C6. A varint cut off by the end of the buffer: when \<^verbatim>\<open>decode_varint\<close> starts
  inside the buffer and every byte from there to the end has the continuation bit set,
  it raises nothing and returns the value of the seven-bit groups read so far, least
  significant first, with the length of the buffer as offset.
\<close>

theorem decode_varint_truncated:
  assumes "pos < length data" and "\<forall>b \<in> set (drop pos data). continues b"
  shows "decode_varint data pos = Inr (groups_value (drop pos data), length data)"
  using assms
  by (simp add: decode_varint_eq varint_value_all_continue varint_len_all_continue)

theorem decode_varint_truncated_witness:
  "(1::nat) < length [0x08, 0x80, 0xFF :: byte]
   \<and> continues (0x80 :: byte) \<and> continues (0xFF :: byte)
   \<and> decode_varint [0x08, 0x80, 0xFF] 1 = Inr (16256, 3)"
proof -
  have b: "continues (0x80 :: byte)" "continues (0xFF :: byte)"
    by (simp_all add: continues_def)
  then have c: "\<forall>b \<in> set (drop 1 [0x08, 0x80, 0xFF :: byte]). continues b"
    by simp
  have l: "(1::nat) < length [0x08, 0x80, 0xFF :: byte]" by simp
  show ?thesis using decode_varint_truncated [OF l c] b by simp
qed

text \<open>
  Claim C8. For a packet whose \<^verbatim>\<open>sequence_flags\<close> is present with bit 0 and bit 1
  set, the list of flag names is \<^verbatim>\<open>INCREMENTAL_STATE_CLEARED\<close> followed by
  \<^verbatim>\<open>NEEDS_INCREMENTAL_STATE\<close>, and \<^verbatim>\<open>print_packet\<close> prints the line with both names
  in that order, whatever it prints before and after and however it ends.
\<close>

theorem sequence_flags_both:
  assumes "sequence_flags p = Some v" and "bit v 0" and "bit v 1"
  shows "sequence_flag_names v = [''INCREMENTAL_STATE_CLEARED'', ''NEEDS_INCREMENTAL_STATE'']
    \<and> print_sequence_flags p =
        [''  sequence_flags: '' @ str_nat v @
         '' (INCREMENTAL_STATE_CLEARED, NEEDS_INCREMENTAL_STATE)'']
    \<and> (\<exists>before after. fst (print_packet limit i p) =
          before @
            [''  sequence_flags: '' @ str_nat v @
             '' (INCREMENTAL_STATE_CLEARED, NEEDS_INCREMENTAL_STATE)''] @ after)"
proof -
  let ?line = "''  sequence_flags: '' @ str_nat v @
         '' (INCREMENTAL_STATE_CLEARED, NEEDS_INCREMENTAL_STATE)''"
  let ?before = "[[], ''=== Packet '' @ str_nat i @ '' ==='',
            ''  [raw size: '' @ str_nat (length (raw_data p)) @ '' bytes]'']
           @ lines_before_flags p"
  have n: "sequence_flag_names v = [''INCREMENTAL_STATE_CLEARED'', ''NEEDS_INCREMENTAL_STATE'']"
    unfolding sequence_flag_names_def Let_def and_1 and_2 using assms(2,3) by simp
  have l: "print_sequence_flags p = [?line]"
    using assms(1) by (simp add: print_sequence_flags_def n)
  have "fst (print_packet limit i p) = ?before @ [?line] @ lines_after_flags p
      \<or> (\<exists>report. fst (print_packet limit i p) =
            ?before @ [?line] @ (lines_after_flags p @ report))"
    by (cases "print_unknown_fields limit p") (simp_all add: print_packet_def Let_def l)
  then have "\<exists>before after. fst (print_packet limit i p) = before @ [?line] @ after"
    by blast
  with n l show ?thesis by blast
qed

theorem sequence_flags_both_witness:
  "bit (3::nat) 0 \<and> bit (3::nat) 1
   \<and> sequence_flag_names 3 = [''INCREMENTAL_STATE_CLEARED'', ''NEEDS_INCREMENTAL_STATE'']
   \<and> print_sequence_flags \<lparr>raw_data = [0x68, 0x03], sequence_flags = Some 3,
        lines_before_flags = [], lines_after_flags = []\<rparr> =
        [''  sequence_flags: 3 (INCREMENTAL_STATE_CLEARED, NEEDS_INCREMENTAL_STATE)'']"
proof -
  let ?p = "\<lparr>raw_data = [0x68, 0x03], sequence_flags = Some 3,
        lines_before_flags = [], lines_after_flags = []\<rparr>"
  have b: "bit (3::nat) 0" "bit (3::nat) 1" by (simp_all add: bit_iff_odd)
  have s: "sequence_flags ?p = Some 3" by simp
  have n: "str_nat 3 = ''3''" by (simp add: str_nat.simps digit_def)
  show ?thesis using sequence_flags_both [OF s b, of 0 0] b by (simp add: n)
qed

text \<open>
  Claim C9. The field-number loop terminates on every buffer. An iteration that starts
  inside the buffer and does not end the loop moves the offset forward: the tag varint
  consumes at least one byte, and \<^verbatim>\<open>skip_field\<close> returns at least the offset it was
  given plus the least advance of the wire type (1 for a varint, 8, 4, and for a
  length-delimited field 1 inside the buffer, 0 at its end). The loop therefore returns, after
  at most as many iterations as there are bytes from the starting offset on: it appends
  one field number per iteration.
\<close>

theorem field_loop_terminates:
  "(pos < length data \<and> decode_varint data pos = Inr (tag, new_pos) \<and>
      skip_field data new_pos (tag AND 7) = Inr pos' \<longrightarrow>
        pos < new_pos \<and> new_pos \<le> pos' \<and> pos < pos')
   \<and> (skip_field data p wire_type = Inr p' \<longrightarrow>
        p + (if wire_type = 0 then 1 else if wire_type = 1 then 8
             else if wire_type = 5 then 4
             else if p < length data then 1 else 0) \<le> p')
   \<and> (\<exists>more. field_loop data pos acc = Inr (acc @ more) \<and> length more \<le> length data - pos)"
proof -
  have a: "pos < new_pos \<and> new_pos \<le> pos' \<and> pos < pos'"
    if "pos < length data" "decode_varint data pos = Inr (tag, new_pos)"
      "skip_field data new_pos (tag AND 7) = Inr pos'"
    using decode_varint_advances(1) [OF that(1) that(2)] skip_field_ge [OF that(3)] by simp
  have b: "p + (if wire_type = 0 then 1 else if wire_type = 1 then 8
             else if wire_type = 5 then 4
             else if p < length data then 1 else 0) \<le> p'"
    if "skip_field data p wire_type = Inr p'"
  proof (cases "wire_type = 2 \<and> p < length data")
    case True
    then have "drop p data \<noteq> []" by simp
    then have "0 < varint_len (drop p data)" by (rule varint_len_pos)
    then show ?thesis
      using that True by (auto simp add: skip_field_def decode_varint_eq)
  next
    case False
    then show ?thesis
      using that
      by (auto simp add: skip_field_def skip_varint_loop_eq decode_varint_eq split: if_splits)
  qed
  show ?thesis using a b field_loop_returns [of data pos acc] by blast
qed

theorem field_loop_terminates_witness:
  "(0::nat) < length [0x08, 0xAC, 0x02, 0x12, 0x03, 0x61, 0x62, 0x63 :: byte]
   \<and> decode_varint [0x08, 0xAC, 0x02, 0x12, 0x03, 0x61, 0x62, 0x63] 0 = Inr (8, 1)
   \<and> skip_field [0x08, 0xAC, 0x02, 0x12, 0x03, 0x61, 0x62, 0x63] 1 (8 AND 7) = Inr 3
   \<and> (0::nat) < 1 \<and> (1::nat) \<le> 3
   \<and> skip_field [0x08, 0xAC, 0x02, 0x12, 0x03, 0x61, 0x62, 0x63] 4 2 = Inr 8
   \<and> (4::nat) + 1 \<le> 8
   \<and> (\<exists>more. field_loop [0x08, 0xAC, 0x02, 0x12, 0x03, 0x61, 0x62, 0x63] 0 [] = Inr more
         \<and> length more \<le> 8)"
proof -
  let ?d = "[0x08, 0xAC, 0x02, 0x12, 0x03, 0x61, 0x62, 0x63] :: byte list"
  have d: "decode_varint ?d 0 = Inr (8, 1)"
    by (simp add: decode_varint_eq continues_def)
  have s: "skip_field ?d 1 (8 AND 7) = Inr 3"
    by (simp add: skip_field_def skip_varint_loop_eq continues_def and_7)
  have t: "skip_field ?d 4 2 = Inr 8"
    by (simp add: skip_field_def decode_varint_eq continues_def)
  have i: "(0::nat) < length ?d" by simp
  note r = field_loop_terminates [of 0 ?d 8 1 3 4 2 8 "[]"]
  from r i d s have "(0::nat) < 1 \<and> (1::nat) \<le> 3" by blast
  moreover from r t have "(4::nat) + 1 \<le> 8" by simp
  moreover from r obtain more where "field_loop ?d 0 [] = Inr ([] @ more)"
    and "length more \<le> length ?d - 0"
    by blast
  then have "\<exists>more. field_loop ?d 0 [] = Inr more \<and> length more \<le> 8"
    by simp
  ultimately show ?thesis using i d s t by blast
qed

text \<open>
  Claim C10. \<^verbatim>\<open>decode_varint\<close> returns a result for every byte sequence and offset,
  and at or past the end it returns 0 and the offset it was given. \<^verbatim>\<open>skip_field\<close>
  returns an offset for the wire types 0, 1, 2 and 5 whatever the bytes are; on a varint
  field cut off by the end of the buffer that offset is the length of the buffer plus
  one, past the end. The caller in \<^verbatim>\<open>print_packet\<close> treats an offset at or past the
  end as the end of the buffer: its loop returns the list it has without reading a byte.
\<close>

theorem decode_varint_total:
  "(\<exists>v p. decode_varint data pos = Inr (v, p))
   \<and> (length data \<le> pos \<longrightarrow> decode_varint data pos = Inr (0, pos))
   \<and> (wire_type \<in> {0, 1, 2, 5} \<longrightarrow> (\<exists>p. skip_field data pos wire_type = Inr p))
   \<and> (pos \<le> length data \<and> (\<forall>b \<in> set (drop pos data). continues b) \<longrightarrow>
        skip_field data pos 0 = Inr (length data + 1))
   \<and> (length data \<le> pos \<longrightarrow> field_loop data pos field_numbers = Inr field_numbers)"
proof -
  have a: "\<exists>v p. decode_varint data pos = Inr (v, p)"
    by (simp add: decode_varint_eq)
  have b: "length data \<le> pos \<longrightarrow> decode_varint data pos = Inr (0, pos)"
    by (simp add: decode_varint_eq)
  have c: "wire_type \<in> {0, 1, 2, 5} \<longrightarrow> (\<exists>p. skip_field data pos wire_type = Inr p)"
    by (auto simp add: skip_field_def skip_varint_loop_eq decode_varint_eq)
  have d: "pos \<le> length data \<and> (\<forall>b \<in> set (drop pos data). continues b) \<longrightarrow>
        skip_field data pos 0 = Inr (length data + 1)"
    by (simp add: skip_field_def skip_varint_loop_eq takeWhile_all_continue)
  have e: "length data \<le> pos \<longrightarrow> field_loop data pos field_numbers = Inr field_numbers"
    by (simp add: field_loop.simps [of data pos])
  from a b c d e show ?thesis by blast
qed

theorem decode_varint_total_witness:
  "decode_varint [0x08, 0x80 :: byte] 2 = Inr (0, 2)
   \<and> decode_varint [0x08, 0x80 :: byte] 5 = Inr (0, 5)
   \<and> skip_field [0x08, 0x80 :: byte] 1 0 = Inr 3
   \<and> length [0x08, 0x80 :: byte] < 3
   \<and> skip_field [0x08, 0x80 :: byte] 1 1 = Inr 9
   \<and> skip_field [0x12, 0x05, 0x61 :: byte] 1 2 = Inr 7
   \<and> skip_field [0x0D, 0x01 :: byte] 1 5 = Inr 5
   \<and> field_loop [0x08, 0x80 :: byte] 3 [1] = Inr [1]"
proof -
  have c: "\<forall>b \<in> set (drop 1 [0x08, 0x80 :: byte]). continues b"
    by (simp add: continues_def)
  have a: "decode_varint [0x08, 0x80 :: byte] 2 = Inr (0, 2)"
    using decode_varint_total [of "[0x08, 0x80]" 2 0] by simp
  have b: "decode_varint [0x08, 0x80 :: byte] 5 = Inr (0, 5)"
    using decode_varint_total [of "[0x08, 0x80]" 5 0] by simp
  have s: "skip_field [0x08, 0x80 :: byte] 1 0 = Inr 3"
    using decode_varint_total [of "[0x08, 0x80]" 1 0] c by simp
  have t: "skip_field [0x08, 0x80 :: byte] 1 1 = Inr 9"
    by (simp add: skip_field_def)
  have u: "skip_field [0x12, 0x05, 0x61 :: byte] 1 2 = Inr 7"
    by (simp add: skip_field_def decode_varint_eq continues_def)
  have v: "skip_field [0x0D, 0x01 :: byte] 1 5 = Inr 5"
    by (simp add: skip_field_def)
  have w: "field_loop [0x08, 0x80 :: byte] 3 [1] = Inr [1]"
    using decode_varint_total [of "[0x08, 0x80]" 3 0 "[1]"] by simp
  show ?thesis using a b s t u v w by simp
qed

end
